theory Spec2Isabelle
  imports Complex_Main "HOL-Library.Word"
begin

section \<open>Text: Python strings as lists of code points\<close>

text \<open>
  A Python \<open>str\<close> is a sequence of Unicode code points, a \<open>bytes\<close> object a sequence
  of octets. String literals of the source are written through \<open>u\<close>, which maps an
  ASCII literal to its code points.
\<close>

type_synonym byte = "8 word"
type_synonym str = "nat list"

definition u :: "string \<Rightarrow> str" where
  "u s = map of_char s"

text \<open>The bytes of an ASCII literal.\<close>

definition ascii :: "string \<Rightarrow> byte list" where
  "ascii s = map of_char s"

definition LF :: nat where
  "LF = 10"

definition COMMA :: nat where
  "COMMA = 44"

text \<open>
  \<open>str.strip()\<close> without argument removes the characters for which \<open>str.isspace\<close> holds
  from both ends. The set below is the one of CPython (Unicode 14): the ASCII
  controls 0x09-0x0D and 0x1C-0x1F, the space, NEL, NBSP and the Unicode space
  separators and line/paragraph separators.
\<close>

definition is_space :: "nat \<Rightarrow> bool" where
  "is_space c \<longleftrightarrow>
     (0x09 \<le> c \<and> c \<le> 0x0D) \<or> (0x1C \<le> c \<and> c \<le> 0x20) \<or> c = 0x85 \<or> c = 0xA0 \<or>
     c = 0x1680 \<or> (0x2000 \<le> c \<and> c \<le> 0x200A) \<or> c = 0x2028 \<or> c = 0x2029 \<or>
     c = 0x202F \<or> c = 0x205F \<or> c = 0x3000"

definition strip :: "str \<Rightarrow> str" where
  "strip s = rev (dropWhile is_space (rev (dropWhile is_space s)))"

text \<open>\<open>line.startswith(x)\<close>.\<close>

fun startswith :: "str \<Rightarrow> str \<Rightarrow> bool" where
  "startswith s [] = True"
| "startswith [] (p # ps) = False"
| "startswith (c # cs) (p # ps) = (c = p \<and> startswith cs ps)"

text \<open>
  \<open>line.split(',')\<close>: every comma separates two fields, empty fields are kept, and
  the result has at least one element.
\<close>

fun split_on :: "nat \<Rightarrow> str \<Rightarrow> str list" where
  "split_on d [] = [[]]"
| "split_on d (c # cs) =
     (case split_on d cs of
        [] \<Rightarrow> [[c]]
      | p # ps \<Rightarrow> if c = d then [] # p # ps else (c # p) # ps)"

section \<open>The builtin \<open>float\<close> on strings\<close>

text \<open>
  A Python float is modelled by its value: a finite real, one of the two
  infinities, or NaN. Finite values are kept exact: the rounding of a decimal
  literal to the nearest binary64 value, overflow to infinity and the sign of zero
  are not modelled. Which strings \<open>float\<close> accepts and which it rejects with
  \<open>ValueError\<close> is modelled in full, after CPython: non-ASCII whitespace and decimal
  digits are first mapped to ASCII, ASCII whitespace is removed from both ends,
  underscores are allowed between digits only, and the rest must be a decimal
  literal with optional fraction and exponent, or \<open>inf\<close>, \<open>infinity\<close> or \<open>nan\<close> in any
  letter case, with an optional sign.
\<close>

datatype pyfloat = Fin real | PInf | NInf | NaN

text \<open>
  The code points of the digit zero of every decimal digit range of Unicode 14
  (general category Nd); the digits 0 to 9 of a range are consecutive.
\<close>

definition decimal_zeros :: "nat list" where
  "decimal_zeros =
     [48, 1632, 1776, 1984, 2406, 2534, 2662, 2790, 2918, 3046, 3174, 3302, 3430,
      3558, 3664, 3792, 3872, 4160, 4240, 6112, 6160, 6470, 6608, 6784, 6800, 6992,
      7088, 7232, 7248, 42528, 43216, 43264, 43472, 43504, 43600, 44016, 65296,
      66720, 68912, 69734, 69872, 69942, 70096, 70384, 70736, 70864, 71248, 71360,
      71472, 71904, 72016, 72784, 73040, 73120, 92768, 92864, 93008, 120782, 120792,
      120802, 120812, 120822, 123200, 123632, 125264, 130032]"

definition to_decimal :: "nat \<Rightarrow> nat option" where
  "to_decimal c =
     (case filter (\<lambda>z. z \<le> c \<and> c < z + 10) decimal_zeros of
        [] \<Rightarrow> None
      | z # _ \<Rightarrow> Some (c - z))"

text \<open>
  Characters below 127 are kept, other whitespace becomes a space, other decimal
  digits become ASCII digits; at the first other character the result ends with a
  question mark.
\<close>

fun transform_decimal_and_space :: "str \<Rightarrow> str" where
  "transform_decimal_and_space [] = []"
| "transform_decimal_and_space (c # cs) =
     (if c < 127 then c # transform_decimal_and_space cs
      else if is_space c then 0x20 # transform_decimal_and_space cs
      else (case to_decimal c of
              None \<Rightarrow> [0x3F]
            | Some d \<Rightarrow> (48 + d) # transform_decimal_and_space cs))"

definition c_isspace :: "nat \<Rightarrow> bool" where
  "c_isspace c \<longleftrightarrow> c = 0x20 \<or> (0x09 \<le> c \<and> c \<le> 0x0D)"

definition c_isdigit :: "nat \<Rightarrow> bool" where
  "c_isdigit c \<longleftrightarrow> 48 \<le> c \<and> c \<le> 57"

definition strip_c :: "str \<Rightarrow> str" where
  "strip_c s = rev (dropWhile c_isspace (rev (dropWhile c_isspace s)))"

text \<open>
  Underscores: each must follow a digit and be followed by a digit. The second
  argument is the previous character (0 at the start).
\<close>

fun drop_underscores :: "str \<Rightarrow> nat \<Rightarrow> str option" where
  "drop_underscores [] prev = (if prev = 0x5F then None else Some [])"
| "drop_underscores (c # cs) prev =
     (if c = 0x5F then
        (if c_isdigit prev then drop_underscores cs c else None)
      else if prev = 0x5F \<and> \<not> c_isdigit c then None
      else map_option ((#) c) (drop_underscores cs c))"

definition digits_value :: "str \<Rightarrow> nat" where
  "digits_value ds = foldl (\<lambda>n d. 10 * n + (d - 48)) 0 ds"

definition lower :: "nat \<Rightarrow> nat" where
  "lower c = (if 65 \<le> c \<and> c \<le> 90 then c + 32 else c)"

definition take_sign :: "str \<Rightarrow> bool \<times> str" where
  "take_sign s =
     (case s of
        [] \<Rightarrow> (False, [])
      | c # cs \<Rightarrow> if c = 0x2D then (True, cs) else if c = 0x2B then (False, cs) else (False, s))"

definition parse_inf_or_nan :: "str \<Rightarrow> pyfloat option" where
  "parse_inf_or_nan s =
     (let (neg, r) = take_sign s; l = map lower r in
      if l = u ''inf'' \<or> l = u ''infinity'' then Some (if neg then NInf else PInf)
      else if l = u ''nan'' then Some NaN
      else None)"

definition scale10 :: "real \<Rightarrow> int \<Rightarrow> real" where
  "scale10 m e = (if 0 \<le> e then m * 10 ^ nat e else m / 10 ^ nat (- e))"

text \<open>
  The exponent part is taken only when at least one digit follows the \<open>e\<close>; the
  function returns the exponent and what is left of the string.
\<close>

definition take_exponent :: "str \<Rightarrow> int \<times> str" where
  "take_exponent s =
     (case s of
        [] \<Rightarrow> (0, s)
      | c # cs \<Rightarrow>
          if c = 0x65 \<or> c = 0x45 then
            (let (eneg, t) = take_sign cs; ed = takeWhile c_isdigit t in
             if ed = [] then (0, s)
             else ((if eneg then - int (digits_value ed) else int (digits_value ed)),
                   dropWhile c_isdigit t))
          else (0, s))"

definition string_to_double :: "str \<Rightarrow> pyfloat option" where
  "string_to_double s =
     (let (neg, r) = take_sign s;
          ip = takeWhile c_isdigit r;
          r1 = dropWhile c_isdigit r;
          fp = (case r1 of [] \<Rightarrow> [] | c # cs \<Rightarrow> if c = 0x2E then takeWhile c_isdigit cs else []);
          r2 = (case r1 of [] \<Rightarrow> [] | c # cs \<Rightarrow> if c = 0x2E then dropWhile c_isdigit cs else r1)
      in if ip = [] \<and> fp = [] then parse_inf_or_nan s
         else
           (let (e, r3) = take_exponent r2;
                m = scale10 (real (digits_value (ip @ fp))) (e - int (length fp))
            in if r3 = [] then Some (Fin (if neg then - m else m)) else None))"

definition float_of_str :: "str \<Rightarrow> pyfloat option" where
  "float_of_str s =
     (case drop_underscores (strip_c (transform_decimal_and_space s)) 0 of
        None \<Rightarrow> None
      | Some t \<Rightarrow> string_to_double t)"

section \<open>Decoding UTF-8 with an error handler\<close>

text \<open>
  \<open>bytes.decode('utf-8', errors=h)\<close>. The decoder reads one character or one
  ill-formed sequence at a time: \<open>utf8_step\<close> gives the code point (or \<open>None\<close> for an
  ill-formed sequence) and the number of bytes it covers. An ill-formed sequence
  is a byte that cannot start a character, or a start byte with the continuation
  bytes that are valid after it, up to the first byte that is not; decoding resumes
  at that byte. The error handler decides what an ill-formed sequence becomes:
  \<open>strict\<close> raises, \<open>ignore\<close> puts nothing in the text, \<open>replace\<close> puts U+FFFD.
\<close>

definition is_cont :: "byte \<Rightarrow> bool" where
  "is_cont b \<longleftrightarrow> 0x80 \<le> b \<and> b \<le> 0xBF"

definition cont_bits :: "byte \<Rightarrow> nat" where
  "cont_bits b = unat b mod 64"

definition second_ok :: "byte \<Rightarrow> byte \<Rightarrow> bool" where
  "second_ok b0 b1 \<longleftrightarrow>
     (if b0 = 0xE0 then 0xA0 else if b0 = 0xF0 then 0x90 else 0x80) \<le> b1 \<and>
     b1 \<le> (if b0 = 0xED then 0x9F else if b0 = 0xF4 then 0x8F else 0xBF)"

definition utf8_step :: "byte \<Rightarrow> byte list \<Rightarrow> nat option \<times> nat" where
  "utf8_step b0 bs =
     (if b0 < 0x80 then (Some (unat b0), 1)
      else if b0 < 0xC2 then (None, 1)
      else if b0 < 0xE0 then
        (case bs of
           [] \<Rightarrow> (None, 1)
         | b1 # _ \<Rightarrow>
             if is_cont b1 then (Some (unat b0 mod 32 * 64 + cont_bits b1), 2)
             else (None, 1))
      else if b0 < 0xF0 then
        (case bs of
           [] \<Rightarrow> (None, 1)
         | b1 # bs1 \<Rightarrow>
             if \<not> second_ok b0 b1 then (None, 1)
             else (case bs1 of
                     [] \<Rightarrow> (None, 2)
                   | b2 # _ \<Rightarrow>
                       if is_cont b2 then
                         (Some (unat b0 mod 16 * 4096 + cont_bits b1 * 64 + cont_bits b2), 3)
                       else (None, 2)))
      else if b0 < 0xF5 then
        (case bs of
           [] \<Rightarrow> (None, 1)
         | b1 # bs1 \<Rightarrow>
             if \<not> second_ok b0 b1 then (None, 1)
             else (case bs1 of
                     [] \<Rightarrow> (None, 2)
                   | b2 # bs2 \<Rightarrow>
                       if \<not> is_cont b2 then (None, 2)
                       else (case bs2 of
                               [] \<Rightarrow> (None, 3)
                             | b3 # _ \<Rightarrow>
                                 if is_cont b3 then
                                   (Some (unat b0 mod 8 * 262144 + cont_bits b1 * 4096 +
                                          cont_bits b2 * 64 + cont_bits b3), 4)
                                 else (None, 3))))
      else (None, 1))"

function utf8_scan :: "byte list \<Rightarrow> nat option list" where
  "utf8_scan [] = []"
| "utf8_scan (b # bs) = fst (utf8_step b bs) # utf8_scan (drop (snd (utf8_step b bs) - 1) bs)"
  by pat_completeness auto
termination
  by (relation "measure length") auto

datatype errors = Strict | Ignore | Replace

datatype exn = UnicodeDecodeError | ZeroDivisionError

definition handled :: "str \<Rightarrow> nat option list \<Rightarrow> str" where
  "handled rep evs = concat (map (\<lambda>e. case e of None \<Rightarrow> rep | Some c \<Rightarrow> [c]) evs)"

definition decode_utf8 :: "errors \<Rightarrow> byte list \<Rightarrow> exn + str" where
  "decode_utf8 h bs =
     (case h of
        Strict \<Rightarrow>
          if None \<in> set (utf8_scan bs) then Inl UnicodeDecodeError
          else Inr (handled [] (utf8_scan bs))
      | Ignore \<Rightarrow> Inr (handled [] (utf8_scan bs))
      | Replace \<Rightarrow> Inr (handled [0xFFFD] (utf8_scan bs)))"

section \<open>Float arithmetic used by the display\<close>

text \<open>
  Addition, absolute value, multiplication, division and comparison of floats,
  with the IEEE rules for infinities and NaN. Division by zero raises
  \<open>ZeroDivisionError\<close> in Python. \<open>max(a, b)\<close> and \<open>min(a, b)\<close> keep the first argument
  unless the second is strictly greater (smaller), so a NaN in first place stays.
\<close>

fun fl_neg :: "pyfloat \<Rightarrow> pyfloat" where
  "fl_neg (Fin a) = Fin (- a)"
| "fl_neg PInf = NInf"
| "fl_neg NInf = PInf"
| "fl_neg NaN = NaN"

fun fl_abs :: "pyfloat \<Rightarrow> pyfloat" where
  "fl_abs (Fin a) = Fin \<bar>a\<bar>"
| "fl_abs PInf = PInf"
| "fl_abs NInf = PInf"
| "fl_abs NaN = NaN"

fun fl_add :: "pyfloat \<Rightarrow> pyfloat \<Rightarrow> pyfloat" where
  "fl_add NaN y = NaN"
| "fl_add x NaN = NaN"
| "fl_add (Fin a) (Fin b) = Fin (a + b)"
| "fl_add PInf NInf = NaN"
| "fl_add NInf PInf = NaN"
| "fl_add (Fin a) y = y"
| "fl_add x y = x"

fun fl_mul :: "pyfloat \<Rightarrow> pyfloat \<Rightarrow> pyfloat" where
  "fl_mul NaN y = NaN"
| "fl_mul x NaN = NaN"
| "fl_mul (Fin a) (Fin b) = Fin (a * b)"
| "fl_mul (Fin a) y = (if a = 0 then NaN else if 0 < a then y else fl_neg y)"
| "fl_mul x (Fin b) = (if b = 0 then NaN else if 0 < b then x else fl_neg x)"
| "fl_mul PInf y = y"
| "fl_mul NInf y = fl_neg y"

fun fl_div :: "pyfloat \<Rightarrow> pyfloat \<Rightarrow> exn + pyfloat" where
  "fl_div x (Fin b) =
     (if b = 0 then Inl ZeroDivisionError
      else Inr (case x of
                  Fin a \<Rightarrow> Fin (a / b)
                | NaN \<Rightarrow> NaN
                | _ \<Rightarrow> if 0 < b then x else fl_neg x))"
| "fl_div x NaN = Inr NaN"
| "fl_div (Fin a) y = Inr (Fin 0)"
| "fl_div x y = Inr NaN"

fun fl_gt :: "pyfloat \<Rightarrow> pyfloat \<Rightarrow> bool" where
  "fl_gt NaN y = False"
| "fl_gt x NaN = False"
| "fl_gt (Fin a) (Fin b) = (b < a)"
| "fl_gt PInf y = (y \<noteq> PInf)"
| "fl_gt x NInf = (x \<noteq> NInf)"
| "fl_gt x y = False"

definition py_max :: "pyfloat \<Rightarrow> pyfloat \<Rightarrow> pyfloat" where
  "py_max a b = (if fl_gt b a then b else a)"

definition py_min :: "pyfloat \<Rightarrow> pyfloat \<Rightarrow> pyfloat" where
  "py_min a b = (if fl_gt a b then b else a)"

section \<open>The visualizer (balanceboardvisualiser.py)\<close>

text \<open>
  The fields of \<open>BalanceBoardVisualizer\<close> that \<open>read_data\<close> and \<open>update\<close> read and
  write. The serial port is the argument \<open>chunk\<close> of \<open>read_data\<close>: the bytes that are
  waiting when the method is called (\<open>in_waiting\<close> is their number, and the read
  returns all of them).
\<close>

record visualizer =
  buffer :: str
  copx :: pyfloat
  copy :: pyfloat
  f1 :: pyfloat
  f2 :: pyfloat
  f3 :: pyfloat
  f4 :: pyfloat
  trail_x :: "pyfloat list"
  trail_y :: "pyfloat list"

definition init :: visualizer where
  "init = \<lparr>buffer = [], copx = Fin 0, copy = Fin 0, f1 = Fin 0, f2 = Fin 0, f3 = Fin 0,
           f4 = Fin 0, trail_x = [], trail_y = []\<rparr>"

definition diagnostic_prefixes :: "str list" where
  "diagnostic_prefixes =
     [u ''Setup'', u ''Taring'', u ''Format'', u ''Force'', u ''Calculating'']"

text \<open>Lines 129 to 133: append the current COP to the trail, keep the last 20.\<close>

definition update_trail :: "visualizer \<Rightarrow> visualizer" where
  "update_trail s =
     (let s1 = s\<lparr>trail_x := trail_x s @ [copx s]\<rparr>;
          s2 = s1\<lparr>trail_y := trail_y s1 @ [copy s1]\<rparr>
      in if length (trail_x s2) > 20
         then s2\<lparr>trail_x := tl (trail_x s2), trail_y := tl (trail_y s2)\<rparr>
         else s2)"

text \<open>
  Lines 117 to 135, for one stripped line. Each field is assigned as soon as it is
  converted; a \<open>ValueError\<close> of \<open>float\<close> leaves the \<open>try\<close> block at that point and is
  swallowed by the bare \<open>except\<close>, so the assignments made before it stay.
\<close>

definition read_data_line :: "visualizer \<Rightarrow> str \<Rightarrow> visualizer" where
  "read_data_line s line =
     (if line \<noteq> [] \<and> \<not> list_ex (startswith line) diagnostic_prefixes then
        (let parts = split_on COMMA line in
         if length parts = 7 then
           (case float_of_str (parts ! 1) of None \<Rightarrow> s | Some v1 \<Rightarrow>
           (let s1 = s\<lparr>f1 := v1\<rparr> in
           (case float_of_str (parts ! 2) of None \<Rightarrow> s1 | Some v2 \<Rightarrow>
           (let s2 = s1\<lparr>f2 := v2\<rparr> in
           (case float_of_str (parts ! 3) of None \<Rightarrow> s2 | Some v3 \<Rightarrow>
           (let s3 = s2\<lparr>f3 := v3\<rparr> in
           (case float_of_str (parts ! 4) of None \<Rightarrow> s3 | Some v4 \<Rightarrow>
           (let s4 = s3\<lparr>f4 := v4\<rparr> in
           (case float_of_str (parts ! 5) of None \<Rightarrow> s4 | Some v5 \<Rightarrow>
           (let s5 = s4\<lparr>copx := v5\<rparr> in
           (case float_of_str (parts ! 6) of None \<Rightarrow> s5 | Some v6 \<Rightarrow>
              update_trail (s5\<lparr>copy := v6\<rparr>))))))))))))
         else s)
      else s)"

text \<open>
  \<open>buffer.split('\n', 1)\<close> for a buffer that holds a line feed: the text before the
  first line feed and the text after it.
\<close>

definition split_lf :: "str \<Rightarrow> str \<times> str" where
  "split_lf b = (takeWhile (\<lambda>c. c \<noteq> LF) b, tl (dropWhile (\<lambda>c. c \<noteq> LF) b))"

text \<open>
  Lines 113 to 135: while the buffer holds a line feed, cut the buffer at the first
  one, strip the part before it and handle it.
\<close>

function read_data_loop :: "visualizer \<Rightarrow> visualizer" where
  "read_data_loop s =
     (if LF \<in> set (buffer s) then
        (let line = fst (split_lf (buffer s));
             rest = snd (split_lf (buffer s))
         in read_data_loop (read_data_line (s\<lparr>buffer := rest\<rparr>) (strip line)))
      else s)"
  by pat_completeness auto
termination
proof (relation "measure (\<lambda>s. length (buffer s))", goal_cases)
  case 1
  show ?case by simp
next
  case (2 s line rest)
  have keep: "buffer (read_data_line (s\<lparr>buffer := rest\<rparr>) (strip line)) = rest"
    unfolding read_data_line_def update_trail_def Let_def
    by (auto split: option.splits)
  from 2 have "dropWhile (\<lambda>c. c \<noteq> LF) (buffer s) \<noteq> []"
    by (simp add: dropWhile_eq_Nil_conv)
  then have "length (tl (dropWhile (\<lambda>c. c \<noteq> LF) (buffer s)))
      < length (dropWhile (\<lambda>c. c \<noteq> LF) (buffer s))"
    by simp
  also have "\<dots> \<le> length (buffer s)"
    by (rule length_dropWhile_le)
  finally have "length rest < length (buffer s)"
    using 2 by (simp add: split_lf_def del: length_tl)
  with keep show ?case
    by simp
qed

definition read_data :: "visualizer \<Rightarrow> byte list \<Rightarrow> exn + visualizer" where
  "read_data s chunk =
     (if length chunk > 0 then
        (case decode_utf8 Ignore chunk of
           Inl e \<Rightarrow> Inl e
         | Inr text \<Rightarrow> Inr (read_data_loop (s\<lparr>buffer := buffer s @ text\<rparr>)))
      else Inr s)"

text \<open>Reading several times, with the bytes that wait at each call.\<close>

fun read_data_all :: "visualizer \<Rightarrow> byte list list \<Rightarrow> exn + visualizer" where
  "read_data_all s [] = Inr s"
| "read_data_all s (chunk # chunks) =
     (case read_data s chunk of
        Inl e \<Rightarrow> Inl e
      | Inr s' \<Rightarrow> read_data_all s' chunks)"

text \<open>
  Lines 150 to 163 of \<open>update\<close>: what one force cell shows. The label is the
  literal \<open>0%\<close> or the percentage (the source prints it with one decimal), the
  opacity is the \<open>alpha\<close> of the cell's rectangle. The other texts and the plot of
  the trail are not part of the model.
\<close>

datatype pct_text = PctZero | PctValue pyfloat

record force_cell =
  value_text :: pyfloat
  pct :: pct_text
  alpha :: pyfloat

definition update_cell :: "pyfloat \<Rightarrow> pyfloat \<Rightarrow> exn + force_cell" where
  "update_cell tot force =
     (if fl_gt tot (Fin 1.0) then
        (case fl_div (fl_abs force) (fl_abs tot) of
           Inl e \<Rightarrow> Inl e
         | Inr share \<Rightarrow>
             (case fl_div (fl_abs force) (py_max (fl_abs tot) (Fin 1)) of
                Inl e \<Rightarrow> Inl e
              | Inr q \<Rightarrow>
                  Inr \<lparr>value_text = force,
                       pct = PctValue (fl_mul share (Fin 100)),
                       alpha = py_min (py_max (fl_add (Fin 0.3) (fl_mul q (Fin 0.7))) (Fin 0.3))
                                 (Fin 1.0)\<rparr>))
      else Inr \<lparr>value_text = force, pct = PctZero, alpha = Fin 0.3\<rparr>)"

fun collect :: "(exn + 'a) list \<Rightarrow> exn + 'a list" where
  "collect [] = Inr []"
| "collect (r # rs) =
     (case r of
        Inl e \<Rightarrow> Inl e
      | Inr x \<Rightarrow> (case collect rs of Inl e \<Rightarrow> Inl e | Inr xs \<Rightarrow> Inr (x # xs)))"

definition total_force :: "visualizer \<Rightarrow> pyfloat" where
  "total_force s = fl_add (fl_add (fl_add (f1 s) (f2 s)) (f3 s)) (f4 s)"

definition update_forces :: "visualizer \<Rightarrow> exn + force_cell list" where
  "update_forces s =
     (let forces = [f2 s, f1 s, f3 s, f4 s];
          tot = total_force s
      in collect (map (update_cell tot) forces))"

definition update :: "visualizer \<Rightarrow> byte list \<Rightarrow> exn + visualizer \<times> force_cell list" where
  "update s chunk =
     (case read_data s chunk of
        Inl e \<Rightarrow> Inl e
      | Inr s' \<Rightarrow> (case update_forces s' of Inl e \<Rightarrow> Inl e | Inr cells \<Rightarrow> Inr (s', cells)))"

section \<open>The console receiver (balanceboardreceiver.py)\<close>

text \<open>
  The state of \<open>start\<close> is its local \<open>buffer\<close> and what it has printed so far, one
  entry per printed line. \<open>receiver_loop\<close> is the inner \<open>while\<close> (lines 25 to 29),
  \<open>start_iteration\<close> one pass of the body of \<open>while True\<close> with the bytes that are
  waiting; an exception in the body is swallowed by the bare \<open>except\<close> and leaves the
  state as it was.
\<close>

function receiver_loop :: "str \<times> str list \<Rightarrow> str \<times> str list" where
  "receiver_loop (buf, out) =
     (if LF \<in> set buf then
        (let line = strip (fst (split_lf buf));
             rest = snd (split_lf buf)
         in receiver_loop (rest, if line \<noteq> [] then out @ [line] else out))
      else (buf, out))"
  by pat_completeness auto
termination
proof (relation "measure (\<lambda>(buf, out). length buf)", goal_cases)
  case 1
  show ?case by simp
next
  case (2 buf out line rest)
  then have "dropWhile (\<lambda>c. c \<noteq> LF) buf \<noteq> []"
    by (simp add: dropWhile_eq_Nil_conv)
  then have "length (tl (dropWhile (\<lambda>c. c \<noteq> LF) buf)) < length (dropWhile (\<lambda>c. c \<noteq> LF) buf)"
    by simp
  also have "\<dots> \<le> length buf"
    by (rule length_dropWhile_le)
  finally have "length rest < length buf"
    using 2 by (simp add: split_lf_def del: length_tl)
  then show ?case
    by simp
qed

definition start_iteration :: "str \<times> str list \<Rightarrow> byte list \<Rightarrow> str \<times> str list" where
  "start_iteration st chunk =
     (if length chunk > 0 then
        (case decode_utf8 Ignore chunk of
           Inl e \<Rightarrow> st
         | Inr text \<Rightarrow> receiver_loop (fst st @ text, snd st))
      else st)"

definition start_run :: "byte list list \<Rightarrow> str \<times> str list" where
  "start_run chunks = foldl start_iteration ([], []) chunks"

section \<open>The record of a line, and the lines of a text\<close>

text \<open>
  The functions of this section are not in the source: they name what the two
  loops compute, and the lemmas below relate them to the loops. \<open>parse_line\<close> is the
  record that a stripped line carries when it passes the test of line 117, has
  seven fields and all six conversions of lines 121 to 126 succeed; \<open>store\<close> is the
  effect of such a line on the visualizer.
\<close>

record telemetry =
  F1 :: pyfloat
  F2 :: pyfloat
  F3 :: pyfloat
  F4 :: pyfloat
  COPx :: pyfloat
  COPy :: pyfloat

definition parse_line :: "str \<Rightarrow> telemetry option" where
  "parse_line line =
     (if line \<noteq> [] \<and> \<not> list_ex (startswith line) diagnostic_prefixes then
        (let parts = split_on COMMA line in
         if length parts = 7 then
           Option.bind (float_of_str (parts ! 1)) (\<lambda>v1.
           Option.bind (float_of_str (parts ! 2)) (\<lambda>v2.
           Option.bind (float_of_str (parts ! 3)) (\<lambda>v3.
           Option.bind (float_of_str (parts ! 4)) (\<lambda>v4.
           Option.bind (float_of_str (parts ! 5)) (\<lambda>v5.
           Option.bind (float_of_str (parts ! 6)) (\<lambda>v6.
             Some \<lparr>F1 = v1, F2 = v2, F3 = v3, F4 = v4, COPx = v5, COPy = v6\<rparr>))))))
         else None)
      else None)"

definition store :: "telemetry \<Rightarrow> visualizer \<Rightarrow> visualizer" where
  "store r s =
     update_trail (s\<lparr>f1 := F1 r, f2 := F2 r, f3 := F3 r, f4 := F4 r,
                     copx := COPx r, copy := COPy r\<rparr>)"

text \<open>
  The complete lines of a text are the parts before its line feeds, and the pending
  part is what follows the last line feed. \<open>join\<close> puts the separator back between
  the parts. \<open>ignored\<close> is the text that \<open>decode('utf-8', errors='ignore')\<close> gives, and
  \<open>yielded\<close> are the lines that the loops pass on: stripped, and dropped when empty.
\<close>

definition lines_of :: "str \<Rightarrow> str list" where
  "lines_of text = butlast (split_on LF text)"

definition pending :: "str \<Rightarrow> str" where
  "pending text = last (split_on LF text)"

fun join :: "nat \<Rightarrow> str list \<Rightarrow> str" where
  "join d [] = []"
| "join d [x] = x"
| "join d (x # y # ys) = x @ d # join d (y # ys)"

definition ignored :: "byte list \<Rightarrow> str" where
  "ignored bs = handled [] (utf8_scan bs)"

definition yielded :: "str \<Rightarrow> str list" where
  "yielded text = filter (\<lambda>l. l \<noteq> []) (map strip (lines_of text))"

text \<open>The COP pairs of the lines that carry a record, and the trail as pairs.\<close>

definition cops :: "str list \<Rightarrow> (pyfloat \<times> pyfloat) list" where
  "cops ls = map (\<lambda>r. (COPx r, COPy r)) (List.map_filter parse_line ls)"

definition trail :: "visualizer \<Rightarrow> (pyfloat \<times> pyfloat) list" where
  "trail s = zip (trail_x s) (trail_y s)"

text \<open>The last \<open>n\<close> elements of a list.\<close>

definition lastn :: "nat \<Rightarrow> 'a list \<Rightarrow> 'a list" where
  "lastn n xs = drop (length xs - n) xs"


text \<open>The bytes that occur in no well-formed UTF-8 sequence.\<close>

definition never_in_utf8 :: "byte \<Rightarrow> bool" where
  "never_in_utf8 b \<longleftrightarrow> b = 0xC0 \<or> b = 0xC1 \<or> 0xF5 \<le> b"

section \<open>Splitting a text at a separator\<close>

lemma split_on_not_Nil: "split_on d s \<noteq> []"
  by (cases s) (simp_all split: list.split)

lemma split_on_no_delim: "d \<notin> set s \<Longrightarrow> split_on d s = [s]"
  by (induction s) auto

lemma split_on_append_delim: "d \<notin> set l \<Longrightarrow> split_on d (l @ d # r) = l # split_on d r"
  by (induction l) (auto simp: split_on_not_Nil split: list.splits)

lemma split_on_parts_no_delim: "p \<in> set (split_on d s) \<Longrightarrow> d \<notin> set p"
proof (induction s arbitrary: p)
  case Nil
  then show ?case by simp
next
  case (Cons c s)
  obtain q qs where qs: "split_on d s = q # qs"
    using split_on_not_Nil [of d s] by (cases "split_on d s") auto
  with Cons.prems have "p = [] \<and> c = d \<or> p = c # q \<and> c \<noteq> d \<or> p \<in> set (q # qs)"
    by (auto split: if_splits)
  with Cons.IH [of q] Cons.IH [of p] qs show ?case
    by auto
qed

lemma join_split_on: "join d (split_on d s) = s"
proof (induction s)
  case Nil
  show ?case by simp
next
  case (Cons c s)
  obtain p ps where ps: "split_on d s = p # ps"
    using split_on_not_Nil [of d s] by (cases "split_on d s") auto
  with Cons show ?case
    by (cases ps) auto
qed

lemma split_lf_decompose:
  assumes "LF \<in> set b"
  shows "b = fst (split_lf b) @ LF # snd (split_lf b)" and "LF \<notin> set (fst (split_lf b))"
proof -
  let ?P = "\<lambda>c. c \<noteq> LF"
  from assms have ne: "dropWhile ?P b \<noteq> []"
    by (simp add: dropWhile_eq_Nil_conv)
  then have "hd (dropWhile ?P b) = LF"
    using hd_dropWhile [of ?P b] by simp
  with ne have "dropWhile ?P b = LF # tl (dropWhile ?P b)"
    by (cases "dropWhile ?P b") auto
  then have "takeWhile ?P b @ LF # tl (dropWhile ?P b) = b"
    using takeWhile_dropWhile_id [of ?P b] by simp
  then show "b = fst (split_lf b) @ LF # snd (split_lf b)"
    by (simp add: split_lf_def)
  show "LF \<notin> set (fst (split_lf b))"
    using set_takeWhileD [of LF ?P b] by (auto simp: split_lf_def)
qed

lemma split_on_split_lf:
  assumes "LF \<in> set b"
  shows "split_on LF b = fst (split_lf b) # split_on LF (snd (split_lf b))"
proof -
  have "split_on LF (fst (split_lf b) @ LF # snd (split_lf b))
      = fst (split_lf b) # split_on LF (snd (split_lf b))"
    by (rule split_on_append_delim) (rule split_lf_decompose(2) [OF assms])
  with split_lf_decompose(1) [OF assms] show ?thesis
    by simp
qed

lemma lines_of_step:
  "LF \<in> set b \<Longrightarrow> lines_of b = fst (split_lf b) # lines_of (snd (split_lf b))"
  by (simp add: lines_of_def split_on_split_lf split_on_not_Nil)

lemma pending_step: "LF \<in> set b \<Longrightarrow> pending b = pending (snd (split_lf b))"
  by (simp add: pending_def split_on_split_lf split_on_not_Nil)

lemma lines_of_none: "LF \<notin> set b \<Longrightarrow> lines_of b = []"
  by (simp add: lines_of_def split_on_no_delim)

lemma pending_none: "LF \<notin> set b \<Longrightarrow> pending b = b"
  by (simp add: pending_def split_on_no_delim)

lemma pending_no_lf: "LF \<notin> set (pending b)"
  using split_on_parts_no_delim [of "pending b" LF b] split_on_not_Nil [of LF b]
  by (simp add: pending_def)

lemma split_on_append:
  "split_on d (x @ y) = butlast (split_on d x) @ split_on d (last (split_on d x) @ y)"
proof (induction x)
  case Nil
  show ?case by simp
next
  case (Cons c x)
  obtain p ps where ps: "split_on d x = p # ps"
    using split_on_not_Nil [of d x] by (cases "split_on d x") auto
  obtain q qs where qs: "split_on d (x @ y) = q # qs"
    using split_on_not_Nil [of d "x @ y"] by (cases "split_on d (x @ y)") auto
  show ?case
  proof (cases ps)
    case Nil
    with ps qs Cons show ?thesis
      by (auto simp: split_on_not_Nil split: list.splits)
  next
    case (Cons p' ps')
    with ps qs Cons.IH show ?thesis
      by (auto simp: split_on_not_Nil split: list.splits)
  qed
qed

lemma lines_of_append: "lines_of (x @ y) = lines_of x @ lines_of (pending x @ y)"
  unfolding lines_of_def pending_def
  by (subst split_on_append) (simp add: butlast_append split_on_not_Nil)

lemma pending_append: "pending (x @ y) = pending (pending x @ y)"
  unfolding pending_def
  by (subst split_on_append) (simp add: split_on_not_Nil)

section \<open>The loops and the lines of the buffer\<close>

declare read_data_loop.simps [simp del]
declare receiver_loop.simps [simp del]

lemma buffer_update_trail: "buffer (update_trail s) = buffer s"
  by (simp add: update_trail_def Let_def)

lemma buffer_read_data_line: "buffer (read_data_line s line) = buffer s"
  unfolding read_data_line_def Let_def
  by (auto simp: buffer_update_trail split: option.splits)

lemma update_trail_buffer_update:
  "update_trail (s\<lparr>buffer := b\<rparr>) = (update_trail s)\<lparr>buffer := b\<rparr>"
  by (simp add: update_trail_def Let_def)

lemma read_data_line_buffer_update:
  "read_data_line (s\<lparr>buffer := b\<rparr>) line = (read_data_line s line)\<lparr>buffer := b\<rparr>"
  unfolding read_data_line_def update_trail_def Let_def
  by (auto split: option.splits)

lemma yielded_step:
  "LF \<in> set b \<Longrightarrow>
     yielded b = (if strip (fst (split_lf b)) \<noteq> [] then [strip (fst (split_lf b))] else [])
                 @ yielded (snd (split_lf b))"
  by (simp add: yielded_def lines_of_step)

lemma receiver_loop_pair:
  "receiver_loop st = (pending (fst st), snd st @ yielded (fst st))"
proof (induction st rule: receiver_loop.induct)
  case (1 buf out)
  show ?case
  proof (cases "LF \<in> set buf")
    case True
    let ?line = "strip (fst (split_lf buf))"
    let ?rest = "snd (split_lf buf)"
    let ?out = "if ?line \<noteq> [] then out @ [?line] else out"
    from True have "receiver_loop (buf, out) = receiver_loop (?rest, ?out)"
      by (subst receiver_loop.simps) (simp add: Let_def)
    also have "\<dots> = (pending (fst (?rest, ?out)), snd (?rest, ?out) @ yielded (fst (?rest, ?out)))"
      using True by (rule "1.IH") simp_all
    also have "\<dots> = (pending buf, out @ yielded buf)"
      using True by (simp add: pending_step yielded_step)
    finally show ?thesis
      by simp
  next
    case False
    then show ?thesis
      by (subst receiver_loop.simps) (simp add: pending_none yielded_def lines_of_none)
  qed
qed

lemma receiver_loop_eq: "receiver_loop (b, out) = (pending b, out @ yielded b)"
  by (simp add: receiver_loop_pair)

lemma read_data_loop_eq:
  "read_data_loop s =
     foldl read_data_line (s\<lparr>buffer := pending (buffer s)\<rparr>) (map strip (lines_of (buffer s)))"
proof (induction s rule: read_data_loop.induct)
  case (1 s)
  show ?case
  proof (cases "LF \<in> set (buffer s)")
    case True
    let ?line = "strip (fst (split_lf (buffer s)))"
    let ?rest = "snd (split_lf (buffer s))"
    let ?s1 = "read_data_line (s\<lparr>buffer := ?rest\<rparr>) ?line"
    from True have "read_data_loop s = read_data_loop ?s1"
      by (subst read_data_loop.simps) (simp add: Let_def)
    also have "\<dots> = foldl read_data_line (?s1\<lparr>buffer := pending (buffer ?s1)\<rparr>)
        (map strip (lines_of (buffer ?s1)))"
      using True by (rule "1.IH") simp_all
    also have "\<dots> = foldl read_data_line (read_data_line (s\<lparr>buffer := pending ?rest\<rparr>) ?line)
        (map strip (lines_of ?rest))"
      by (simp add: buffer_read_data_line read_data_line_buffer_update)
    also have "\<dots> = foldl read_data_line (s\<lparr>buffer := pending (buffer s)\<rparr>)
        (map strip (lines_of (buffer s)))"
      using True by (simp add: pending_step lines_of_step)
    finally show ?thesis .
  next
    case False
    then show ?thesis
      by (subst read_data_loop.simps) (simp add: pending_none lines_of_none)
  qed
qed

lemma decode_ignore: "decode_utf8 Ignore bs = Inr (ignored bs)"
  by (simp add: decode_utf8_def ignored_def)

lemma utf8_scan_Nil: "ignored [] = []"
  by (simp add: ignored_def handled_def)

lemma start_iteration_eq:
  assumes "LF \<notin> set buf"
  shows "start_iteration (buf, out) chunk =
           (pending (buf @ ignored chunk), out @ yielded (buf @ ignored chunk))"
proof (cases chunk)
  case Nil
  with assms show ?thesis
    by (simp add: start_iteration_def utf8_scan_Nil pending_none yielded_def lines_of_none)
next
  case (Cons b bs)
  then show ?thesis
    by (simp add: start_iteration_def decode_ignore receiver_loop_eq)
qed

lemma read_data_eq:
  assumes "LF \<notin> set (buffer s)"
  shows "read_data s chunk =
           Inr (foldl read_data_line (s\<lparr>buffer := pending (buffer s @ ignored chunk)\<rparr>)
                  (map strip (lines_of (buffer s @ ignored chunk))))"
proof (cases chunk)
  case Nil
  with assms show ?thesis
    by (simp add: read_data_def utf8_scan_Nil pending_none lines_of_none)
next
  case (Cons b bs)
  then show ?thesis
    by (simp add: read_data_def decode_ignore read_data_loop_eq)
qed

lemma buffer_foldl_read_data_line: "buffer (foldl read_data_line s ls) = buffer s"
  by (induction ls arbitrary: s) (simp_all add: buffer_read_data_line)

lemma foldl_read_data_line_buffer_update:
  "foldl read_data_line (s\<lparr>buffer := b\<rparr>) ls = (foldl read_data_line s ls)\<lparr>buffer := b\<rparr>"
  by (induction ls arbitrary: s) (simp_all add: read_data_line_buffer_update)

lemma read_data_all_eq:
  assumes "LF \<notin> set (buffer s)"
  shows "read_data_all s chunks =
           Inr (foldl read_data_line
                  (s\<lparr>buffer := pending (buffer s @ concat (map ignored chunks))\<rparr>)
                  (map strip (lines_of (buffer s @ concat (map ignored chunks)))))"
  using assms
proof (induction chunks arbitrary: s)
  case Nil
  then show ?case
    by (simp add: pending_none lines_of_none)
next
  case (Cons chunk chunks)
  let ?t = "ignored chunk"
  let ?T = "concat (map ignored chunks)"
  let ?s1 = "foldl read_data_line (s\<lparr>buffer := pending (buffer s @ ?t)\<rparr>)
               (map strip (lines_of (buffer s @ ?t)))"
  have b1: "buffer ?s1 = pending (buffer s @ ?t)"
    by (simp add: buffer_foldl_read_data_line)
  then have "LF \<notin> set (buffer ?s1)"
    by (simp add: pending_no_lf)
  then have "read_data_all ?s1 chunks =
      Inr (foldl read_data_line (?s1\<lparr>buffer := pending (buffer ?s1 @ ?T)\<rparr>)
             (map strip (lines_of (buffer ?s1 @ ?T))))"
    by (rule Cons.IH)
  also have "pending (buffer ?s1 @ ?T) = pending (buffer s @ ?t @ ?T)"
    using pending_append [of "buffer s @ ?t" ?T] by (simp add: b1)
  also have "lines_of (buffer s @ ?t @ ?T)
      = lines_of (buffer s @ ?t) @ lines_of (buffer ?s1 @ ?T)"
    using lines_of_append [of "buffer s @ ?t" ?T] by (simp add: b1)
  ultimately have "read_data_all ?s1 chunks =
      Inr (foldl read_data_line (s\<lparr>buffer := pending (buffer s @ ?t @ ?T)\<rparr>)
             (map strip (lines_of (buffer s @ ?t @ ?T))))"
    by (simp add: foldl_read_data_line_buffer_update)
  then show ?case
    using Cons.prems by (simp add: read_data_eq)
qed

section \<open>Stripped lines\<close>

lemma last_dropWhile_nonempty:
  assumes "dropWhile P xs \<noteq> []"
  shows "last (dropWhile P xs) = last xs"
proof -
  have "last (takeWhile P xs @ dropWhile P xs) = last (dropWhile P xs)"
    using assms by (rule last_appendR)
  then show ?thesis
    by simp
qed

lemma strip_ends:
  assumes "strip x \<noteq> []"
  shows "\<not> is_space (hd (strip x))" and "\<not> is_space (last (strip x))"
proof -
  let ?d = "dropWhile is_space x"
  let ?z = "dropWhile is_space (rev ?d)"
  from assms have z: "?z \<noteq> []"
    by (simp add: strip_def)
  have d: "?d \<noteq> []"
  proof
    assume "?d = []"
    with z show False by simp
  qed
  have "hd (strip x) = last ?z"
    using z by (simp add: strip_def hd_rev)
  also have "\<dots> = last (rev ?d)"
    using z by (rule last_dropWhile_nonempty)
  also have "\<dots> = hd ?d"
    using d by (simp add: last_rev)
  finally show "\<not> is_space (hd (strip x))"
    using hd_dropWhile [OF d] by simp
  have "last (strip x) = hd ?z"
    using z by (simp add: strip_def last_rev)
  then show "\<not> is_space (last (strip x))"
    using hd_dropWhile [OF z] by simp
qed

lemma strip_fixed:
  assumes "y \<noteq> []" and "\<not> is_space (hd y)" and "\<not> is_space (last y)"
  shows "strip y = y"
proof -
  from assms have "dropWhile is_space y = y"
    by (simp add: dropWhile_eq_self_iff)
  moreover from assms have "\<not> is_space (hd (rev y))"
    by (simp add: hd_rev)
  then have "dropWhile is_space (rev y) = rev y"
    by (simp add: dropWhile_eq_self_iff)
  ultimately show ?thesis
    by (simp add: strip_def)
qed

lemma strip_Nil: "strip [] = []"
  by (simp add: strip_def)

lemma strip_idem: "strip (strip x) = strip x"
proof (cases "strip x = []")
  case True
  then show ?thesis
    by (simp only: strip_Nil)
next
  case False
  then show ?thesis
    by (intro strip_fixed strip_ends)
qed

lemma set_strip: "set (strip x) \<subseteq> set x"
proof
  fix c
  assume "c \<in> set (strip x)"
  then have "c \<in> set (dropWhile is_space (rev (dropWhile is_space x)))"
    by (simp add: strip_def)
  then have "c \<in> set (rev (dropWhile is_space x))"
    by (rule set_dropWhileD)
  then have "c \<in> set (dropWhile is_space x)"
    by simp
  then show "c \<in> set x"
    by (rule set_dropWhileD)
qed

lemma lines_of_no_lf: "g \<in> set (lines_of t) \<Longrightarrow> LF \<notin> set g"
  unfolding lines_of_def by (rule split_on_parts_no_delim) (rule in_set_butlastD)

lemma yielded_line:
  assumes "l \<in> set (yielded t)"
  shows "l \<noteq> []" and "strip l = l" and "LF \<notin> set l"
proof -
  from assms obtain g where g: "g \<in> set (lines_of t)" and l: "l = strip g" and ne: "l \<noteq> []"
    by (auto simp: yielded_def)
  show "l \<noteq> []" by (rule ne)
  show "strip l = l" by (simp add: l strip_idem)
  show "LF \<notin> set l"
    using lines_of_no_lf [OF g] set_strip [of g] by (auto simp: l)
qed

lemma join_lines_pending: "join LF (lines_of t @ [pending t]) = t"
  using join_split_on [of LF t] split_on_not_Nil [of LF t]
  by (simp add: lines_of_def pending_def)

lemma yielded_append: "yielded (x @ y) = yielded x @ yielded (pending x @ y)"
  unfolding yielded_def by (subst lines_of_append) simp

lemma start_iterations_eq:
  "LF \<notin> set buf \<Longrightarrow>
     foldl start_iteration (buf, out) chunks =
       (pending (buf @ concat (map ignored chunks)),
        out @ yielded (buf @ concat (map ignored chunks)))"
proof (induction chunks arbitrary: buf out)
  case Nil
  then show ?case
    by (simp add: pending_none yielded_def lines_of_none)
next
  case (Cons chunk chunks)
  let ?t = "ignored chunk"
  let ?T = "concat (map ignored chunks)"
  have "foldl start_iteration (buf, out) (chunk # chunks)
      = foldl start_iteration (pending (buf @ ?t), out @ yielded (buf @ ?t)) chunks"
    using Cons.prems by (simp add: start_iteration_eq)
  also have "\<dots> = (pending (pending (buf @ ?t) @ ?T),
      (out @ yielded (buf @ ?t)) @ yielded (pending (buf @ ?t) @ ?T))"
    by (rule Cons.IH) (rule pending_no_lf)
  also have "\<dots> = (pending (buf @ ?t @ ?T), out @ yielded (buf @ ?t @ ?T))"
    using pending_append [of "buf @ ?t" ?T] yielded_append [of "buf @ ?t" ?T] by simp
  finally show ?case
    by simp
qed

lemma start_run_eq:
  "start_run chunks = (pending (concat (map ignored chunks)), yielded (concat (map ignored chunks)))"
  using start_iterations_eq [of "[]" "[]" chunks] by (simp add: start_run_def)

section \<open>Evaluation of concrete inputs\<close>

lemmas eval_text = u_def ascii_def LF_def COMMA_def strip_def is_space_def split_lf_def

lemmas eval_decode = decode_utf8_def handled_def utf8_step_def is_cont_def cont_bits_def second_ok_def

lemmas eval_float = float_of_str_def string_to_double_def take_sign_def take_exponent_def
  c_isdigit_def c_isspace_def strip_c_def digits_value_def scale10_def parse_inf_or_nan_def
  lower_def

lemmas eval_line = read_data_line_def diagnostic_prefixes_def Let_def

section \<open>Claims about line framing\<close>

text \<open>
  Claim C1, as stated, fails: the lines that are passed on are stripped, and empty
  ones are dropped, so putting them back together does not give the input. For the
  single chunk \<open>" a \n"\<close> the receiver prints the line \<open>"a"\<close> and keeps an empty
  buffer; joined with line feeds that is \<open>"a\n"\<close>, not the four bytes of the input.
\<close>

theorem framing_not_lossless_counterexample:
  "start_run [ascii '' a \<newline>''] = ([], [u ''a'']) \<and>
   join LF (snd (start_run [ascii '' a \<newline>'']) @ [fst (start_run [ascii '' a \<newline>''])])
     \<noteq> map unat (ascii '' a \<newline>'')"
  by (simp add: start_run_def start_iteration_def receiver_loop.simps eval_text eval_decode)

text \<open>
  Claim C1, amended: for every sequence of chunks, starting from the empty buffer,
  the text read (each chunk decoded on its own, ill-formed bytes ignored) is the
  parts before its line feeds, joined with line feeds, followed by the final
  buffer; no part holds a line feed; and the lines printed are these parts in
  order, each stripped, the empty ones left out.
\<close>

theorem framing_lossless_before_strip:
  "fst (start_run chunks) = pending (concat (map ignored chunks)) \<and>
   snd (start_run chunks) =
     filter (\<lambda>l. l \<noteq> []) (map strip (lines_of (concat (map ignored chunks)))) \<and>
   join LF (lines_of (concat (map ignored chunks)) @ [fst (start_run chunks)])
     = concat (map ignored chunks) \<and>
   (\<forall>g \<in> set (lines_of (concat (map ignored chunks))). LF \<notin> set g) \<and>
   LF \<notin> set (fst (start_run chunks))"
  by (simp add: start_run_eq join_lines_pending lines_of_no_lf pending_no_lf yielded_def)

theorem framing_lossless_before_strip_witness:
  "start_run [ascii '' a \<newline>\<newline>b'', ascii ''c\<newline>d''] = (u ''d'', [u ''a'', u ''bc'']) \<and>
   lines_of (concat (map ignored [ascii '' a \<newline>\<newline>b'', ascii ''c\<newline>d''])) = [u '' a '', [], u ''bc''] \<and>
   join LF ([u '' a '', [], u ''bc''] @ [u ''d'']) = u '' a \<newline>\<newline>bc\<newline>d''"
  using framing_lossless_before_strip [of "[ascii '' a \<newline>\<newline>b'', ascii ''c\<newline>d'']"]
  by (simp add: prod_eq_iff lines_of_def pending_def ignored_def eval_text eval_decode)

text \<open>
  Claim C7: when bytes were waiting, the buffer holds no line feed after the loop,
  in the receiver and in the visualizer, and every line the receiver prints in
  that pass is not empty, is left unchanged (and so not emptied) by another
  \<open>strip\<close>, and holds no line feed.
\<close>

theorem framer_lines_and_accumulator:
  assumes "chunk \<noteq> []"
  shows "LF \<notin> set (fst (start_iteration (buf, out) chunk)) \<and>
         (\<exists>new. snd (start_iteration (buf, out) chunk) = out @ new \<and>
                (\<forall>l \<in> set new. l \<noteq> [] \<and> strip l \<noteq> [] \<and> strip l = l \<and> LF \<notin> set l)) \<and>
         (\<exists>s'. read_data s chunk = Inr s' \<and> LF \<notin> set (buffer s'))"
proof (intro conjI)
  from assms have it: "start_iteration (buf, out) chunk
      = (pending (buf @ ignored chunk), out @ yielded (buf @ ignored chunk))"
    by (simp add: start_iteration_def decode_ignore receiver_loop_eq)
  show "LF \<notin> set (fst (start_iteration (buf, out) chunk))"
    by (simp add: it pending_no_lf)
  have "\<forall>l \<in> set (yielded (buf @ ignored chunk)).
      l \<noteq> [] \<and> strip l \<noteq> [] \<and> strip l = l \<and> LF \<notin> set l"
    using yielded_line by auto
  then show "\<exists>new. snd (start_iteration (buf, out) chunk) = out @ new \<and>
      (\<forall>l \<in> set new. l \<noteq> [] \<and> strip l \<noteq> [] \<and> strip l = l \<and> LF \<notin> set l)"
    unfolding it by (intro exI [of _ "yielded (buf @ ignored chunk)"]) simp
  from assms have "read_data s chunk
      = Inr (read_data_loop (s\<lparr>buffer := buffer s @ ignored chunk\<rparr>))"
    by (simp add: read_data_def decode_ignore)
  moreover have "LF \<notin> set (buffer (read_data_loop (s\<lparr>buffer := buffer s @ ignored chunk\<rparr>)))"
    by (simp add: read_data_loop_eq buffer_foldl_read_data_line pending_no_lf)
  ultimately show "\<exists>s'. read_data s chunk = Inr s' \<and> LF \<notin> set (buffer s')"
    by simp
qed

theorem framer_lines_and_accumulator_witness:
  "start_iteration (u ''x'', []) (ascii ''y \<newline>  \<newline> z'') = (u '' z'', [u ''xy'']) \<and>
   LF \<notin> set (u '' z'') \<and> strip (u ''xy'') = u ''xy'' \<and>
   (\<exists>s'. read_data init (ascii ''y \<newline>  \<newline> z'') = Inr s' \<and> LF \<notin> set (buffer s'))"
  using framer_lines_and_accumulator [of "ascii ''y \<newline>  \<newline> z''" "u ''x''" "[]" init]
  by (simp add: start_iteration_def receiver_loop.simps eval_text eval_decode)

text \<open>
  Claim C10: with no bytes waiting, \<open>read_data\<close> returns the visualizer as it was
  (buffer, readings and trail) and raises nothing, and a pass of the receiver
  leaves its buffer as it was and prints nothing.
\<close>

theorem empty_poll_is_noop:
  "read_data s [] = Inr s \<and> start_iteration (buf, out) [] = (buf, out)"
  by (simp add: read_data_def start_iteration_def)

section \<open>Claims about parsing\<close>

text \<open>
  Claim C8: the line \<open>1000,1.0,2.0,3.0,4.0,0.5,-0.5\<close> sets F1 to 1.0, F2 to 2.0,
  F3 to 3.0, F4 to 4.0, COPx to 0.5 and COPy to -0.5 (and the pair is then added
  to the trail); the lines \<open>Setup complete\<close> and \<open>1,2,3\<close> leave the visualizer unchanged.
\<close>

theorem parse_examples:
  "read_data_line s (u ''1000,1.0,2.0,3.0,4.0,0.5,-0.5'') =
     update_trail (s\<lparr>f1 := Fin 1.0, f2 := Fin 2.0, f3 := Fin 3.0, f4 := Fin 4.0,
                     copx := Fin 0.5, copy := Fin (- 0.5)\<rparr>) \<and>
   read_data_line s (u ''Setup complete'') = s \<and>
   read_data_line s (u ''1,2,3'') = s"
  by (simp add: eval_line eval_float eval_text)

text \<open>
  Claim C2 does not hold of the code: a line whose second field converts and whose
  third does not leaves F1 changed. A new visualizer that reads the line
  \<open>0,9.0,x,3,4,5,6\<close> has F1 = 9.0 afterwards.
\<close>

theorem partial_update_on_failed_line:
  "read_data init (ascii ''0,9.0,x,3,4,5,6\<newline>'') = Inr (init\<lparr>f1 := Fin 9\<rparr>) \<and>
   init\<lparr>f1 := Fin 9\<rparr> \<noteq> init"
  by (simp add: read_data_def read_data_loop.simps init_def eval_line eval_float eval_text
      eval_decode)

section \<open>Records and the trail\<close>

lemma parse_line_Some:
  assumes "parse_line line = Some r"
  shows "read_data_line s line = store r s"
  using assms unfolding parse_line_def read_data_line_def store_def Let_def
  by (auto split: if_splits option.splits simp: bind_eq_Some_conv)

lemma parse_line_None:
  assumes "parse_line line = None"
  shows "trail_x (read_data_line s line) = trail_x s"
    and "trail_y (read_data_line s line) = trail_y s"
  using assms unfolding parse_line_def read_data_line_def Let_def
  by (auto split: if_splits option.splits simp: bind_eq_None_conv)

lemma lastn_append_one:
  assumes "length t \<le> n"
  shows "lastn n (t @ [x]) = (if length (t @ [x]) > n then tl (t @ [x]) else t @ [x])"
proof (cases "length (t @ [x]) > n")
  case True
  with assms have "length (t @ [x]) - n = Suc 0"
    by simp
  then have "lastn n (t @ [x]) = drop (Suc 0) (t @ [x])"
    by (simp only: lastn_def)
  with True show ?thesis
    by (simp only: drop_Suc drop_0 if_True)
next
  case False
  then show ?thesis
    by (simp add: lastn_def)
qed

lemma lastn_lastn_append: "lastn n (lastn n t @ cs) = lastn n (t @ cs)"
proof -
  have *: "\<And>xs :: 'a list. lastn n xs = rev (take n (rev xs))"
    by (simp add: lastn_def rev_take)
  show ?thesis
    by (simp add: * take_rev [symmetric] min_def)
qed

lemma length_lastn: "length (lastn n xs) = min n (length xs)"
  by (simp add: lastn_def)

lemma lastn_all: "length xs \<le> n \<Longrightarrow> lastn n xs = xs"
  by (simp add: lastn_def)

lemma trail_store:
  assumes "length (trail_x s) = length (trail_y s)" and "length (trail_x s) \<le> 20"
  shows "trail (store r s) = lastn 20 (trail s @ [(COPx r, COPy r)])"
    and "length (trail_x (store r s)) = length (trail_y (store r s))"
proof -
  let ?t = "trail s @ [(COPx r, COPy r)]"
  have len: "length (trail s) = length (trail_x s)"
    using assms by (simp add: trail_def)
  have "trail (store r s) = (if length ?t > 20 then tl ?t else ?t)"
    using assms
    by (cases "trail_x s"; cases "trail_y s")
       (auto simp: store_def update_trail_def trail_def Let_def)
  also have "\<dots> = lastn 20 ?t"
    using assms len by (simp only: lastn_append_one)
  finally show "trail (store r s) = lastn 20 (trail s @ [(COPx r, COPy r)])" .
  show "length (trail_x (store r s)) = length (trail_y (store r s))"
    using assms by (simp add: store_def update_trail_def Let_def)
qed

lemma cops_Cons:
  "cops (l # ls) = (case parse_line l of None \<Rightarrow> cops ls | Some r \<Rightarrow> (COPx r, COPy r) # cops ls)"
  by (simp add: cops_def List.map_filter_simps split: option.splits)

lemma trail_foldl_read_data_line:
  assumes "length (trail_x s) = length (trail_y s)" and "length (trail_x s) \<le> 20"
  shows "trail (foldl read_data_line s ls) = lastn 20 (trail s @ cops ls) \<and>
         length (trail_x (foldl read_data_line s ls)) = length (trail_y (foldl read_data_line s ls))"
  using assms
proof (induction ls arbitrary: s)
  case Nil
  then show ?case
    by (simp add: cops_def List.map_filter_simps lastn_all trail_def)
next
  case (Cons l ls)
  show ?case
  proof (cases "parse_line l")
    case None
    let ?s1 = "read_data_line s l"
    have "trail ?s1 = trail s" and "trail_x ?s1 = trail_x s" and "trail_y ?s1 = trail_y s"
      using parse_line_None [OF None, of s] by (simp_all add: trail_def)
    with Cons.IH [of ?s1] Cons.prems None show ?thesis
      by (simp add: cops_Cons)
  next
    case (Some r)
    let ?s1 = "store r s"
    have s1: "read_data_line s l = ?s1"
      by (rule parse_line_Some [OF Some])
    have t1: "trail ?s1 = lastn 20 (trail s @ [(COPx r, COPy r)])"
      and l1: "length (trail_x ?s1) = length (trail_y ?s1)"
      using trail_store [OF Cons.prems] by simp_all
    have "length (trail ?s1) \<le> 20"
      by (simp add: t1 length_lastn)
    with l1 have l2: "length (trail_x ?s1) \<le> 20"
      by (simp add: trail_def)
    have "trail (foldl read_data_line ?s1 ls) = lastn 20 (trail ?s1 @ cops ls)"
      and l3: "length (trail_x (foldl read_data_line ?s1 ls))
        = length (trail_y (foldl read_data_line ?s1 ls))"
      using Cons.IH [OF l1 l2] by simp_all
    then have "trail (foldl read_data_line ?s1 ls)
        = lastn 20 ((trail s @ [(COPx r, COPy r)]) @ cops ls)"
      by (simp only: t1 lastn_lastn_append)
    with l3 show ?thesis
      by (simp add: s1 cops_Cons Some)
  qed
qed


lemma parse_line_Nil: "parse_line [] = None"
  by (simp add: parse_line_def)

lemma cops_nonempty: "cops (filter (\<lambda>l. l \<noteq> []) ls) = cops ls"
proof (induction ls)
  case Nil
  show ?case by simp
next
  case (Cons l ls)
  then show ?case
    by (cases "l = []") (simp_all add: cops_Cons parse_line_Nil split: option.splits)
qed

lemma cops_yielded: "cops (yielded t) = cops (map strip (lines_of t))"
  by (simp add: yielded_def cops_nonempty)

lemma lengths_read_data_line:
  assumes "length (trail_x s) = length (trail_y s)"
  shows "length (trail_x (read_data_line s line)) = length (trail_y (read_data_line s line))"
proof (cases "parse_line line")
  case None
  with assms show ?thesis
    by (simp add: parse_line_None)
next
  case (Some r)
  with assms show ?thesis
    by (simp add: parse_line_Some store_def update_trail_def Let_def)
qed

lemma set_trail_read_data_line:
  assumes "length (trail_x s) = length (trail_y s)"
  shows "set (trail (read_data_line s line)) \<subseteq> set (trail s) \<union> set (cops [line])"
proof (cases "parse_line line")
  case None
  then show ?thesis
    by (simp add: parse_line_None trail_def)
next
  case (Some r)
  let ?t = "trail s @ [(COPx r, COPy r)]"
  have "trail (store r s) = (if length (trail_x s) + 1 > 20 then tl ?t else ?t)"
    using assms
    by (cases "trail_x s"; cases "trail_y s")
       (auto simp: store_def update_trail_def trail_def Let_def)
  moreover have "set (tl ?t) \<subseteq> set ?t"
    by (cases ?t) auto
  ultimately have "set (trail (store r s)) \<subseteq> set ?t"
    by (simp split: if_splits)
  with Some show ?thesis
    by (auto simp: parse_line_Some cops_Cons cops_def List.map_filter_simps)
qed

lemma trail_invariant_foldl:
  assumes "length (trail_x s) = length (trail_y s)"
  shows "length (trail_x (foldl read_data_line s ls)) = length (trail_y (foldl read_data_line s ls)) \<and>
         set (trail (foldl read_data_line s ls)) \<subseteq> set (trail s) \<union> set (cops ls)"
  using assms
proof (induction ls arbitrary: s)
  case Nil
  then show ?case by simp
next
  case (Cons l ls)
  let ?s1 = "read_data_line s l"
  have l1: "length (trail_x ?s1) = length (trail_y ?s1)"
    by (rule lengths_read_data_line [OF Cons.prems])
  have "set (trail ?s1) \<subseteq> set (trail s) \<union> set (cops [l])"
    by (rule set_trail_read_data_line [OF Cons.prems])
  moreover have "set (cops (l # ls)) = set (cops [l]) \<union> set (cops ls)"
    by (simp add: cops_Cons cops_def List.map_filter_simps split: option.splits)
  ultimately show ?case
    using Cons.IH [OF l1] by auto
qed

lemma read_data_trail_fields:
  "trail_x (s\<lparr>buffer := b\<rparr>) = trail_x s" "trail_y (s\<lparr>buffer := b\<rparr>) = trail_y s"
  "trail (s\<lparr>buffer := b\<rparr>) = trail s"
  by (simp_all add: trail_def)

section \<open>Claims about the trail\<close>

text \<open>
  Claim C9: if the two trail sequences have the same length, they have the same
  length after \<open>read_data\<close>, which raises nothing, and every pair in the trail was
  there before or is the COP pair of a line of this pass that carries a record. A line on which one of the
  conversions of fields 1 to 6 fails leaves both trail sequences as they were,
  also when earlier conversions of that line succeeded; a line carries a record
  only when all six conversions succeed, and its COP pair is then the values of
  fields 5 and 6.
\<close>

theorem trail_entries_from_full_records:
  assumes "length (trail_x s) = length (trail_y s)"
  shows "(\<exists>s'. read_data s chunk = Inr s' \<and>
               length (trail_x s') = length (trail_y s') \<and>
               set (trail s') \<subseteq> set (trail s) \<union> set (cops (yielded (buffer s @ ignored chunk)))) \<and>
         ((\<exists>i \<in> {1..6}. float_of_str (split_on COMMA line ! i) = None) \<longrightarrow>
            trail_x (read_data_line s line) = trail_x s \<and>
            trail_y (read_data_line s line) = trail_y s) \<and>
         (\<forall>r. parse_line line = Some r \<longrightarrow>
            (\<forall>i \<in> {1..6}. float_of_str (split_on COMMA line ! i) \<noteq> None) \<and>
            float_of_str (split_on COMMA line ! 5) = Some (COPx r) \<and>
            float_of_str (split_on COMMA line ! 6) = Some (COPy r))"
proof (intro conjI)
  show "\<exists>s'. read_data s chunk = Inr s' \<and> length (trail_x s') = length (trail_y s') \<and>
      set (trail s') \<subseteq> set (trail s) \<union> set (cops (yielded (buffer s @ ignored chunk)))"
  proof (cases chunk)
    case Nil
    with assms show ?thesis
      by (auto simp: read_data_def)
  next
    case (Cons b bs)
    let ?s0 = "s\<lparr>buffer := pending (buffer s @ ignored chunk)\<rparr>"
    let ?ls = "map strip (lines_of (buffer s @ ignored chunk))"
    from Cons have "read_data s chunk = Inr (foldl read_data_line ?s0 ?ls)"
      by (simp add: read_data_def decode_ignore read_data_loop_eq)
    moreover have "length (trail_x ?s0) = length (trail_y ?s0)"
      using assms by simp
    then have "length (trail_x (foldl read_data_line ?s0 ?ls))
        = length (trail_y (foldl read_data_line ?s0 ?ls)) \<and>
      set (trail (foldl read_data_line ?s0 ?ls)) \<subseteq> set (trail ?s0) \<union> set (cops ?ls)"
      by (rule trail_invariant_foldl)
    ultimately show ?thesis
      by (simp add: cops_yielded read_data_trail_fields)
  qed
  show "(\<exists>i \<in> {1..6}. float_of_str (split_on COMMA line ! i) = None) \<longrightarrow>
      trail_x (read_data_line s line) = trail_x s \<and> trail_y (read_data_line s line) = trail_y s"
  proof
    assume "\<exists>i \<in> {1..6}. float_of_str (split_on COMMA line ! i) = None"
    then obtain i :: nat where "1 \<le> i" "i \<le> 6" "float_of_str (split_on COMMA line ! i) = None"
      by auto
    then have "i = 1 \<or> i = 2 \<or> i = 3 \<or> i = 4 \<or> i = 5 \<or> i = 6"
      by arith
    with \<open>float_of_str (split_on COMMA line ! i) = None\<close> have "parse_line line = None"
      unfolding parse_line_def Let_def by (auto simp: bind_eq_None_conv)
    then show "trail_x (read_data_line s line) = trail_x s \<and>
        trail_y (read_data_line s line) = trail_y s"
      by (simp add: parse_line_None)
  qed
  show "\<forall>r. parse_line line = Some r \<longrightarrow>
      (\<forall>i \<in> {1..6}. float_of_str (split_on COMMA line ! i) \<noteq> None) \<and>
      float_of_str (split_on COMMA line ! 5) = Some (COPx r) \<and>
      float_of_str (split_on COMMA line ! 6) = Some (COPy r)"
  proof (intro allI impI)
    fix r
    assume "parse_line line = Some r"
    then obtain v1 v2 v3 v4 v5 v6 where
      "float_of_str (split_on COMMA line ! 1) = Some v1"
      "float_of_str (split_on COMMA line ! 2) = Some v2"
      "float_of_str (split_on COMMA line ! 3) = Some v3"
      "float_of_str (split_on COMMA line ! 4) = Some v4"
      "float_of_str (split_on COMMA line ! 5) = Some v5"
      "float_of_str (split_on COMMA line ! 6) = Some v6"
      "r = \<lparr>F1 = v1, F2 = v2, F3 = v3, F4 = v4, COPx = v5, COPy = v6\<rparr>"
      unfolding parse_line_def Let_def
      by (auto split: if_splits simp: bind_eq_Some_conv)
    moreover have "\<And>i :: nat. i \<in> {1..6} \<Longrightarrow> i = 1 \<or> i = 2 \<or> i = 3 \<or> i = 4 \<or> i = 5 \<or> i = 6"
      by auto
    ultimately show "(\<forall>i \<in> {1..6}. float_of_str (split_on COMMA line ! i) \<noteq> None) \<and>
        float_of_str (split_on COMMA line ! 5) = Some (COPx r) \<and>
        float_of_str (split_on COMMA line ! 6) = Some (COPy r)"
      by force
  qed
qed

theorem trail_entries_from_full_records_witness:
  "length (trail_x init) = length (trail_y init) \<and>
   (\<exists>s'. read_data init (ascii ''0,1,2,3,4,5,6\<newline>0,9,8,7,6,5,x\<newline>'') = Inr s' \<and>
      length (trail_x s') = length (trail_y s')) \<and>
   float_of_str (split_on COMMA (u ''0,9,8,7,6,5,x'') ! 5) = Some (Fin 5) \<and>
   float_of_str (split_on COMMA (u ''0,9,8,7,6,5,x'') ! 6) = None \<and>
   trail_x (read_data_line init (u ''0,9,8,7,6,5,x'')) = [] \<and>
   trail_y (read_data_line init (u ''0,9,8,7,6,5,x'')) = []"
proof -
  let ?line = "u ''0,9,8,7,6,5,x''"
  let ?chunk = "ascii ''0,1,2,3,4,5,6\<newline>0,9,8,7,6,5,x\<newline>''"
  have a: "length (trail_x init) = length (trail_y init)"
    by (simp add: init_def)
  have f5: "float_of_str (split_on COMMA ?line ! 5) = Some (Fin 5)"
    by (simp add: eval_float eval_text)
  have f6: "float_of_str (split_on COMMA ?line ! 6) = None"
    by (simp add: eval_float eval_text)
  then have "\<exists>i \<in> {1..6}. float_of_str (split_on COMMA ?line ! i) = None"
    by (intro bexI [of _ 6]) simp_all
  with trail_entries_from_full_records [OF a, of ?chunk ?line]
  have "(\<exists>s'. read_data init ?chunk = Inr s' \<and> length (trail_x s') = length (trail_y s'))"
    and "trail_x (read_data_line init ?line) = trail_x init"
    and "trail_y (read_data_line init ?line) = trail_y init"
    by blast+
  with a f5 f6 show ?thesis
    by (simp add: init_def)
qed

text \<open>
  Claim C5: after any sequence of reads, starting from a new visualizer, the two
  trail sequences are the x and y values of the last 20 COP pairs (all of them when
  there are fewer) of the lines read so far that carry a record, in the order of
  the lines: oldest first, newest last. The witness reads 25 data lines, delivered
  in five chunks, and finds the COP pairs of the last 20 lines.
\<close>

theorem trail_holds_last_20:
  "\<exists>s'. read_data_all init chunks = Inr s' \<and>
        trail_x s' = map fst (lastn 20 (cops (yielded (concat (map ignored chunks))))) \<and>
        trail_y s' = map snd (lastn 20 (cops (yielded (concat (map ignored chunks))))) \<and>
        length (trail_x s') = min 20 (length (cops (yielded (concat (map ignored chunks)))))"
proof -
  let ?T = "concat (map ignored chunks)"
  let ?s0 = "init\<lparr>buffer := pending ?T\<rparr>"
  let ?s' = "foldl read_data_line ?s0 (map strip (lines_of ?T))"
  have "read_data_all init chunks = Inr ?s'"
    using read_data_all_eq [of init chunks] by (simp add: init_def)
  moreover have "trail ?s' = lastn 20 (trail ?s0 @ cops (map strip (lines_of ?T))) \<and>
      length (trail_x ?s') = length (trail_y ?s')"
    by (rule trail_foldl_read_data_line) (simp_all add: init_def)
  then have t: "trail ?s' = lastn 20 (cops (yielded ?T))"
    and l: "length (trail_x ?s') = length (trail_y ?s')"
    by (simp_all add: cops_yielded trail_def init_def)
  from l have "map fst (trail ?s') = trail_x ?s'" and "map snd (trail ?s') = trail_y ?s'"
    by (simp_all add: trail_def)
  with t have "trail_x ?s' = map fst (lastn 20 (cops (yielded ?T)))"
    and "trail_y ?s' = map snd (lastn 20 (cops (yielded ?T)))"
    by simp_all
  moreover from this have "length (trail_x ?s') = min 20 (length (cops (yielded ?T)))"
    by (simp add: length_lastn)
  ultimately show ?thesis
    by blast
qed


theorem trail_holds_last_20_witness:
  "\<exists>s'. read_data_all init
     [ascii ''0,1,2,3,4,0.5,-0\<newline>1,1,2,3,4,1.5,-1\<newline>2,1,2,3,4,2.5,-2\<newline>3,1,2,3,4,3.5,-3\<newline>4,'',
      ascii ''1,2,3,4,4.5,-4\<newline>5,1,2,3,4,5.5,-5\<newline>6,1,2,3,4,6.5,-6\<newline>7,1,2,3,4,7.5,-7\<newline>8,1,2,3,4,8.5,'',
      ascii ''-8\<newline>9,1,2,3,4,9.5,-9\<newline>10,1,2,3,4,10.5,-10\<newline>11,1,2,3,4,11.5,-11\<newline>12,1,2,3,4,12.5,-12\<newline>'',
      ascii ''13,1,2,3,4,13.5,-13\<newline>14,1,2,3,4,14.5,-14\<newline>15,1,2,3,4,15.5,-15\<newline>16,1,2,3,4,16.5,-16\<newline>'',
      ascii ''17,1,2,3,4,17.5,-17\<newline>18,1,2,3,4,18.5,-18\<newline>19,1,2,3,4,19.5,-19\<newline>20,1,2,3,4,20.5,-20\<newline>21,1,2,3,4,21.5,-21\<newline>22,1,2,3,4,22.5,-22\<newline>23,1,2,3,4,23.5,-23\<newline>24,1,2,3,4,24.5,-24\<newline>''] = Inr s' \<and>
     trail_x s' =
       [Fin 5.5, Fin 6.5, Fin 7.5, Fin 8.5, Fin 9.5, Fin 10.5, Fin 11.5, Fin 12.5, Fin
        13.5, Fin 14.5, Fin 15.5, Fin 16.5, Fin 17.5, Fin 18.5, Fin 19.5, Fin 20.5, Fin
        21.5, Fin 22.5, Fin 23.5, Fin 24.5] \<and>
     trail_y s' =
       [Fin (- 5), Fin (- 6), Fin (- 7), Fin (- 8), Fin (- 9), Fin (- 10), Fin (- 11),
        Fin (- 12), Fin (- 13), Fin (- 14), Fin (- 15), Fin (- 16), Fin (- 17), Fin (-
        18), Fin (- 19), Fin (- 20), Fin (- 21), Fin (- 22), Fin (- 23), Fin (- 24)]"
proof -
  let ?C = "[ascii ''0,1,2,3,4,0.5,-0\<newline>1,1,2,3,4,1.5,-1\<newline>2,1,2,3,4,2.5,-2\<newline>3,1,2,3,4,3.5,-3\<newline>4,'',
      ascii ''1,2,3,4,4.5,-4\<newline>5,1,2,3,4,5.5,-5\<newline>6,1,2,3,4,6.5,-6\<newline>7,1,2,3,4,7.5,-7\<newline>8,1,2,3,4,8.5,'',
      ascii ''-8\<newline>9,1,2,3,4,9.5,-9\<newline>10,1,2,3,4,10.5,-10\<newline>11,1,2,3,4,11.5,-11\<newline>12,1,2,3,4,12.5,-12\<newline>'',
      ascii ''13,1,2,3,4,13.5,-13\<newline>14,1,2,3,4,14.5,-14\<newline>15,1,2,3,4,15.5,-15\<newline>16,1,2,3,4,16.5,-16\<newline>'',
      ascii ''17,1,2,3,4,17.5,-17\<newline>18,1,2,3,4,18.5,-18\<newline>19,1,2,3,4,19.5,-19\<newline>20,1,2,3,4,20.5,-20\<newline>21,1,2,3,4,21.5,-21\<newline>22,1,2,3,4,22.5,-22\<newline>23,1,2,3,4,23.5,-23\<newline>24,1,2,3,4,24.5,-24\<newline>'']"
  have c: "cops (yielded (concat (map ignored ?C))) =
      [(Fin 0.5, Fin (- 0)), (Fin 1.5, Fin (- 1)), (Fin 2.5, Fin (- 2)), (Fin 3.5, Fin
       (- 3)), (Fin 4.5, Fin (- 4)), (Fin 5.5, Fin (- 5)), (Fin 6.5, Fin (- 6)), (Fin
       7.5, Fin (- 7)), (Fin 8.5, Fin (- 8)), (Fin 9.5, Fin (- 9)), (Fin 10.5, Fin (-
       10)), (Fin 11.5, Fin (- 11)), (Fin 12.5, Fin (- 12)), (Fin 13.5, Fin (- 13)),
       (Fin 14.5, Fin (- 14)), (Fin 15.5, Fin (- 15)), (Fin 16.5, Fin (- 16)), (Fin
       17.5, Fin (- 17)), (Fin 18.5, Fin (- 18)), (Fin 19.5, Fin (- 19)), (Fin 20.5,
       Fin (- 20)), (Fin 21.5, Fin (- 21)), (Fin 22.5, Fin (- 22)), (Fin 23.5, Fin (-
       23)), (Fin 24.5, Fin (- 24))]"
    by (simp add: ignored_def yielded_def lines_of_def cops_def parse_line_def
        List.map_filter_simps diagnostic_prefixes_def eval_float eval_text eval_decode)
  from trail_holds_last_20 [of ?C] obtain s' where r: "read_data_all init ?C = Inr s'"
    and x: "trail_x s' = map fst (lastn 20 (cops (yielded (concat (map ignored ?C)))))"
    and y: "trail_y s' = map snd (lastn 20 (cops (yielded (concat (map ignored ?C)))))"
    by blast
  from x have "trail_x s' =
      [Fin 5.5, Fin 6.5, Fin 7.5, Fin 8.5, Fin 9.5, Fin 10.5, Fin 11.5, Fin 12.5, Fin
       13.5, Fin 14.5, Fin 15.5, Fin 16.5, Fin 17.5, Fin 18.5, Fin 19.5, Fin 20.5, Fin
       21.5, Fin 22.5, Fin 23.5, Fin 24.5]"
    unfolding c by (simp add: lastn_def)
  moreover from y have "trail_y s' =
      [Fin (- 5), Fin (- 6), Fin (- 7), Fin (- 8), Fin (- 9), Fin (- 10), Fin (- 11),
       Fin (- 12), Fin (- 13), Fin (- 14), Fin (- 15), Fin (- 16), Fin (- 17), Fin (-
       18), Fin (- 19), Fin (- 20), Fin (- 21), Fin (- 22), Fin (- 23), Fin (- 24)]"
    unfolding c by (simp add: lastn_def)
  ultimately show ?thesis
    using r by (intro exI [of _ s'] conjI)
qed

section \<open>Claims about the force cells\<close>





section \<open>Properties of the decoder\<close>

lemma utf8_step_length: "snd (utf8_step b bs) - 1 \<le> length bs"
  by (simp add: utf8_step_def split: list.splits)

lemma utf8_step_append:
  assumes "utf8_step b bs = (Some c, n)"
  shows "utf8_step b (bs @ cs) = (Some c, n)"
  using assms
  by (auto simp: utf8_step_def split: list.splits if_splits)

lemma utf8_scan_append:
  assumes "None \<notin> set (utf8_scan xs)"
  shows "utf8_scan (xs @ ys) = utf8_scan xs @ utf8_scan ys"
  using assms
proof (induction xs rule: utf8_scan.induct)
  case 1
  show ?case by simp
next
  case (2 b bs)
  obtain r n where st: "utf8_step b bs = (r, n)"
    by (cases "utf8_step b bs")
  with "2.prems" obtain c where c: "r = Some c"
    by (cases r) auto
  from st c have st': "utf8_step b (bs @ ys) = (Some c, n)"
    by (simp add: utf8_step_append)
  have len: "n - 1 \<le> length bs"
    using utf8_step_length [of b bs] st by simp
  from "2.prems" st have "None \<notin> set (utf8_scan (drop (n - 1) bs))"
    by simp
  with "2.IH" st have "utf8_scan (drop (n - 1) bs @ ys)
      = utf8_scan (drop (n - 1) bs) @ utf8_scan ys"
    by simp
  with st st' c len show ?case
    by simp
qed

lemma utf8_step_before_non_cont:
  assumes "0xBF < b"
  shows "utf8_step x (xs @ b # ys) = utf8_step x xs"
proof -
  from assms have "\<not> is_cont b" and "\<And>b0. \<not> second_ok b0 b"
    by (auto simp: is_cont_def second_ok_def word_le_nat_alt word_less_nat_alt)
  then show ?thesis
    by (auto simp: utf8_step_def split: list.splits)
qed

lemma utf8_scan_before_non_cont:
  assumes "0xBF < b"
  shows "utf8_scan (xs @ b # ys) = utf8_scan xs @ utf8_scan (b # ys)"
proof (induction xs rule: utf8_scan.induct)
  case 1
  show ?case by simp
next
  case (2 x xs)
  have len: "snd (utf8_step x xs) - 1 \<le> length xs"
    by (rule utf8_step_length)
  with "2.IH" show ?case
    by (simp add: utf8_step_before_non_cont [OF assms])
qed

lemma utf8_step_never:
  assumes "never_in_utf8 b"
  shows "utf8_step b ys = (None, 1)"
proof -
  from assms have "b = 0xC0 \<or> b = 0xC1 \<or> 0xF5 \<le> b"
    by (simp add: never_in_utf8_def)
  then show ?thesis
  proof (elim disjE)
    assume "0xF5 \<le> b"
    then have "\<not> b < 0x80" "\<not> b < 0xC2" "\<not> b < 0xE0" "\<not> b < 0xF0" "\<not> b < 0xF5"
      by (simp_all add: word_le_nat_alt word_less_nat_alt)
    then show ?thesis
      by (simp add: utf8_step_def)
  qed (simp_all add: utf8_step_def)
qed

lemma never_in_utf8_high: "never_in_utf8 b \<Longrightarrow> 0xBF < b"
  by (auto simp: never_in_utf8_def word_le_nat_alt word_less_nat_alt)

lemma utf8_scan_never:
  assumes "never_in_utf8 b"
  shows "utf8_scan (xs @ b # ys) = utf8_scan xs @ None # utf8_scan ys"
  using utf8_scan_before_non_cont [OF never_in_utf8_high [OF assms], of xs ys]
    utf8_step_never [OF assms, of ys]
  by simp

lemma handled_append: "handled rep (es @ fs) = handled rep es @ handled rep fs"
  by (simp add: handled_def)


lemma lead2: "194 \<le> (n::nat) \<Longrightarrow> n < 224 \<Longrightarrow> 2 \<le> n mod 32"
  by presburger

lemma lead3: "225 \<le> (n::nat) \<Longrightarrow> n < 240 \<Longrightarrow> 1 \<le> n mod 16"
  by presburger

lemma lead4: "241 \<le> (n::nat) \<Longrightarrow> n < 245 \<Longrightarrow> 1 \<le> n mod 8"
  by presburger

lemma second_E0: "160 \<le> (n::nat) \<Longrightarrow> n \<le> 191 \<Longrightarrow> 32 \<le> n mod 64"
  by presburger

lemma second_F0: "144 \<le> (n::nat) \<Longrightarrow> n \<le> 191 \<Longrightarrow> 16 \<le> n mod 64"
  by presburger

lemma utf8_step_two:
  fixes b :: byte
  assumes "\<not> b < 0x80" and "\<not> b < 0xC2" and "b < 0xE0"
  shows "128 \<le> unat b mod 32 * 64 + k"
proof -
  from assms have "2 \<le> unat b mod 32"
    by (intro lead2) (simp_all add: word_less_nat_alt not_less)
  then show ?thesis
    by simp
qed

lemma utf8_step_three:
  fixes b :: byte
  assumes "\<not> b < 0xE0" and "b < 0xF0" and "second_ok b b1"
  shows "128 \<le> unat b mod 16 * 4096 + cont_bits b1 * 64 + k"
proof (cases "b = 0xE0")
  case True
  with assms have "32 \<le> cont_bits b1"
    unfolding cont_bits_def
    by (intro second_E0) (simp_all add: second_ok_def word_le_nat_alt)
  then show ?thesis
    by simp
next
  case False
  have "unat b \<noteq> 224"
  proof
    assume "unat b = 224"
    then have "word_of_nat (unat b) = (word_of_nat 224 :: byte)"
      by simp
    then have "b = 0xE0"
      by simp
    with False show False
      by simp
  qed
  with assms have "1 \<le> unat b mod 16"
    by (intro lead3) (simp_all add: word_less_nat_alt not_less)
  then show ?thesis
    by simp
qed

lemma utf8_step_four:
  fixes b :: byte
  assumes "\<not> b < 0xF0" and "b < 0xF5" and "second_ok b b1"
  shows "128 \<le> unat b mod 8 * 262144 + cont_bits b1 * 4096 + k"
proof (cases "b = 0xF0")
  case True
  with assms have "16 \<le> cont_bits b1"
    unfolding cont_bits_def
    by (intro second_F0) (simp_all add: second_ok_def word_le_nat_alt)
  then show ?thesis
    by simp
next
  case False
  have "unat b \<noteq> 240"
  proof
    assume "unat b = 240"
    then have "word_of_nat (unat b) = (word_of_nat 240 :: byte)"
      by simp
    then have "b = 0xF0"
      by simp
    with False show False
      by simp
  qed
  with assms have "1 \<le> unat b mod 8"
    by (intro lead4) (simp_all add: word_less_nat_alt not_less)
  then show ?thesis
    by simp
qed


lemma utf8_step_multibyte:
  assumes "utf8_step b bs = (Some c, n)" and "\<not> b < 0x80"
  shows "128 \<le> c"
proof -
  consider (two) "\<not> b < 0xC2" "b < 0xE0"
    | (three) "\<not> b < 0xE0" "b < 0xF0"
    | (four) "\<not> b < 0xF0" "b < 0xF5"
    | (none) "b < 0xC2 \<or> \<not> b < 0xF5"
    by (auto simp: word_less_nat_alt)
  then show ?thesis
  proof cases
    case two
    with assms obtain b1 where "c = unat b mod 32 * 64 + cont_bits b1"
      by (auto simp: utf8_step_def split: list.splits if_splits)
    with utf8_step_two [OF assms(2) two] show ?thesis
      by simp
  next
    case three
    then have "\<not> b < 0xC2"
      by (simp add: word_less_nat_alt)
    with assms three obtain b1 b2 where "second_ok b b1"
      and "c = unat b mod 16 * 4096 + cont_bits b1 * 64 + cont_bits b2"
      by (auto simp: utf8_step_def split: list.splits if_splits)
    with utf8_step_three [OF three] show ?thesis
      by simp
  next
    case four
    then have "\<not> b < 0xC2" "\<not> b < 0xE0"
      by (simp_all add: word_less_nat_alt)
    with assms four obtain b1 k where "second_ok b b1"
      and "c = unat b mod 8 * 262144 + cont_bits b1 * 4096 + k"
      by (auto simp: utf8_step_def add.assoc split: list.splits if_splits)
    with utf8_step_four [OF four] show ?thesis
      by simp
  next
    case none
    with assms have False
      by (auto simp: utf8_step_def word_less_nat_alt split: if_splits)
    then show ?thesis ..
  qed
qed

lemma utf8_step_ascii:
  assumes "utf8_step b bs = (Some c, n)" and "c < 128"
  shows "c = unat b"
proof -
  from assms utf8_step_multibyte [of b bs c n] have "b < 0x80"
    by auto
  with assms show ?thesis
    by (simp add: utf8_step_def)
qed

lemma utf8_scan_ascii:
  assumes "Some c \<in> set (utf8_scan bs)" and "c < 128"
  shows "c \<in> unat ` set bs"
  using assms
proof (induction bs rule: utf8_scan.induct)
  case 1
  then show ?case by simp
next
  case (2 b bs)
  obtain r n where st: "utf8_step b bs = (r, n)"
    by (cases "utf8_step b bs")
  from "2.prems" st consider "r = Some c" | "Some c \<in> set (utf8_scan (drop (n - 1) bs))"
    by auto
  then show ?case
  proof cases
    case 1
    with st "2.prems" have "c = unat b"
      by (auto dest: utf8_step_ascii)
    then show ?thesis
      by simp
  next
    case 2
    with "2.IH" "2.prems" st have "c \<in> unat ` set (drop (n - 1) bs)"
      by simp
    then show ?thesis
      using set_drop_subset [of "n - 1" bs] by auto
  qed
qed

lemma set_handled_ignore: "set (handled [] es) = {c. Some c \<in> set es}"
  by (induction es) (auto simp: handled_def split: option.splits)

lemma ignored_no_lf:
  assumes "0x0A \<notin> set bs"
  shows "LF \<notin> set (ignored bs)"
proof
  assume "LF \<in> set (ignored bs)"
  then have "Some LF \<in> set (utf8_scan bs)"
    by (simp add: ignored_def set_handled_ignore)
  then have "LF \<in> unat ` set bs"
    by (rule utf8_scan_ascii) (simp add: LF_def)
  then obtain b where b: "b \<in> set bs" and "unat b = 10"
    by (auto simp: LF_def)
  then have "word_of_nat (unat b) = (word_of_nat 10 :: byte)"
    by simp
  then have "b = 0x0A"
    by simp
  with b assms show False
    by simp
qed

lemma ignored_append_wellformed:
  "None \<notin> set (utf8_scan xs) \<Longrightarrow> ignored (xs @ ys) = ignored xs @ ignored ys"
  by (simp add: ignored_def utf8_scan_append handled_append)

end
